theory Spec2Isabelle
  imports Main
begin

section \<open>JavaScript strings\<close>

text \<open>
  A source string is a list of code units; one \<^typ>\<open>char\<close> stands for one code unit, so
  the model covers the strings whose code units are below 256. The string methods below
  are the ones \<^verbatim>\<open>file-editor.ts\<close> and \<^verbatim>\<open>path-utils.ts\<close> call, with the semantics ECMAScript
  gives them: all of them work on code units.
\<close>

abbreviation CR :: char where "CR \<equiv> CHR 0x0D"
abbreviation LF :: char where "LF \<equiv> CHR 0x0A"
abbreviation SP :: char where "SP \<equiv> CHR 0x20"
abbreviation BACKTICK :: char where "BACKTICK \<equiv> CHR 0x60"
abbreviation DOLLAR :: char where "DOLLAR \<equiv> CHR 0x24"

text \<open>\<^verbatim>\<open>\s\<close> of a regular expression and the characters \<^verbatim>\<open>trim\<close> and \<^verbatim>\<open>trimStart\<close>
  strip: the ECMAScript WhiteSpace and LineTerminator code units, of which tab, LF, VT,
  FF, CR, space and NBSP are below 256.\<close>

definition isSpace :: "char \<Rightarrow> bool" where
  "isSpace c = (c \<in> set [CHR 0x09, LF, CHR 0x0B, CHR 0x0C, CR, SP, CHR 0xA0])"

text \<open>\<^verbatim>\<open>s.startsWith(p)\<close>\<close>

definition startsWith :: "string \<Rightarrow> string \<Rightarrow> bool" where
  "startsWith s p = (take (length p) s = p)"

text \<open>\<^verbatim>\<open>s.indexOf(p)\<close>, with \<open>None\<close> for -1; \<^verbatim>\<open>s.includes(p)\<close>.\<close>

fun str_indexOf :: "string \<Rightarrow> string \<Rightarrow> nat option" where
  "str_indexOf [] p = (if p = [] then Some 0 else None)"
| "str_indexOf (c # s) p =
     (if startsWith (c # s) p then Some 0 else map_option Suc (str_indexOf s p))"

definition str_includes :: "string \<Rightarrow> string \<Rightarrow> bool" where
  "str_includes s p = (str_indexOf s p \<noteq> None)"

text \<open>
  The replacement text of \<^verbatim>\<open>String.prototype.replace\<close> is a template (GetSubstitution):
  \<^verbatim>\<open>$$\<close> stands for a dollar sign, \<^verbatim>\<open>$&\<close> for the matched text, \<^verbatim>\<open>$`\<close> for the text
  before the match and \<^verbatim>\<open>$'\<close> for the text after it. With a string pattern there are no
  capture groups, so \<^verbatim>\<open>$1\<close>, \<^verbatim>\<open>$<\<close> and every other character stand for themselves.
\<close>

fun getSubstitution :: "string \<Rightarrow> string \<Rightarrow> string \<Rightarrow> string \<Rightarrow> string" where
  "getSubstitution matched preceding following [] = []"
| "getSubstitution matched preceding following [c] = [c]"
| "getSubstitution matched preceding following (c # d # t) =
     (if c = DOLLAR \<and> d = DOLLAR then DOLLAR # getSubstitution matched preceding following t
      else if c = DOLLAR \<and> d = CHR ''&'' then matched @ getSubstitution matched preceding following t
      else if c = DOLLAR \<and> d = BACKTICK then preceding @ getSubstitution matched preceding following t
      else if c = DOLLAR \<and> d = CHR 0x27 then following @ getSubstitution matched preceding following t
      else c # getSubstitution matched preceding following (d # t))"

text \<open>\<^verbatim>\<open>s.replace(p, r)\<close> with a string pattern: the first occurrence only.\<close>

definition str_replace :: "string \<Rightarrow> string \<Rightarrow> string \<Rightarrow> string" where
  "str_replace s p r =
     (case str_indexOf s p of
        None \<Rightarrow> s
      | Some i \<Rightarrow>
          take i s @ getSubstitution p (take i s) (drop (i + length p) s) r
            @ drop (i + length p) s)"

text \<open>\<^verbatim>\<open>s.split(c)\<close> for a one-character separator: never the empty list.\<close>

fun str_split :: "char \<Rightarrow> string \<Rightarrow> string list" where
  "str_split sep [] = [[]]"
| "str_split sep (c # s) =
     (if c = sep then [] # str_split sep s
      else (case str_split sep s of
              [] \<Rightarrow> [[c]]
            | l # ls \<Rightarrow> (c # l) # ls))"

text \<open>\<^verbatim>\<open>xs.join(sep)\<close>\<close>

fun str_join :: "string \<Rightarrow> string list \<Rightarrow> string" where
  "str_join sep [] = []"
| "str_join sep [l] = l"
| "str_join sep (l # m # ls) = l @ sep @ str_join sep (m # ls)"

text \<open>\<^verbatim>\<open>s.trimStart()\<close>, \<^verbatim>\<open>s.trim()\<close> and \<^verbatim>\<open>s.match(/^\s*/)?.[0] || ''\<close>\<close>

definition trimStart :: "string \<Rightarrow> string" where
  "trimStart s = dropWhile isSpace s"

definition trim :: "string \<Rightarrow> string" where
  "trim s = rev (dropWhile isSpace (rev (dropWhile isSpace s)))"

definition leadingSpace :: "string \<Rightarrow> string" where
  "leadingSpace s = takeWhile isSpace s"

section \<open>Errors and injected dependencies\<close>

text \<open>
  A thrown value is an \<^verbatim>\<open>Error\<close> with its message, or something that is not an
  \<^verbatim>\<open>Error\<close> instance. A call that may throw returns \<open>js_error + 'a\<close>.
\<close>

datatype js_error = JsError (message: string) | JsThrown string

text \<open>
  \<^verbatim>\<open>FileSystemDependencies\<close>: the \<^verbatim>\<open>path\<close>, \<^verbatim>\<open>os\<close> and \<^verbatim>\<open>fs\<close> modules the classes are
  constructed with, and \<^verbatim>\<open>process.cwd()\<close>. The file system has a state \<open>'fs\<close>;
  \<^verbatim>\<open>realpath\<close> and \<^verbatim>\<open>readFile\<close> read it, \<^verbatim>\<open>writeFile\<close> is the only call that changes it
  and returns the error it throws, if any, with the state it leaves.
  \<^verbatim>\<open>createTwoFilesPatch\<close> is the function of the \<^verbatim>\<open>diff\<close> package. Every \<^verbatim>\<open>await\<close> is
  modelled as a call that runs to its end before the next statement.
\<close>

record 'fs deps =
  path_normalize :: "string \<Rightarrow> string"
  path_isAbsolute :: "string \<Rightarrow> bool"
  path_resolve :: "string list \<Rightarrow> string"
  path_dirname :: "string \<Rightarrow> string"
  path_join :: "string list \<Rightarrow> string"
  os_homedir :: "string"
  process_cwd :: "string"
  fs_realpath :: "'fs \<Rightarrow> string \<Rightarrow> js_error + string"
  fs_readFile :: "'fs \<Rightarrow> string \<Rightarrow> js_error + string"
  fs_writeFile :: "'fs \<Rightarrow> string \<Rightarrow> string \<Rightarrow> js_error option \<times> 'fs"
  createTwoFilesPatch ::
    "string \<Rightarrow> string \<Rightarrow> string \<Rightarrow> string \<Rightarrow> string \<Rightarrow> string \<Rightarrow> string"

section \<open>PathUtils\<close>

definition normalizePath :: "'fs deps \<Rightarrow> string \<Rightarrow> string" where
  "normalizePath d p = path_normalize d p"

definition expandHome :: "'fs deps \<Rightarrow> string \<Rightarrow> string" where
  "expandHome d filepath =
     (if startsWith filepath ''~/'' \<or> filepath = ''~''
      then path_join d [os_homedir d, drop 1 filepath]
      else filepath)"

text \<open>\<^verbatim>\<open>allowedDirectories.some(dir => p.startsWith(dir))\<close>\<close>

definition isAllowed :: "string list \<Rightarrow> string \<Rightarrow> bool" where
  "isAllowed allowedDirectories p = list_ex (\<lambda>dir. startsWith p dir) allowedDirectories"

definition absolutePath :: "'fs deps \<Rightarrow> string \<Rightarrow> string" where
  "absolutePath d requestedPath =
     (let expandedPath = expandHome d requestedPath
      in if path_isAbsolute d expandedPath
         then path_resolve d [expandedPath]
         else path_resolve d [process_cwd d, expandedPath])"

definition outsideError :: "string \<Rightarrow> string list \<Rightarrow> js_error" where
  "outsideError absolute allowedDirectories =
     JsError (''Access denied - path outside allowed directories: '' @ absolute
              @ '' not in '' @ str_join '', '' allowedDirectories)"

definition symlinkError :: js_error where
  "symlinkError = JsError ''Access denied - symlink target outside allowed directories''"

text \<open>The \<^verbatim>\<open>catch (error)\<close> block of \<^verbatim>\<open>validatePath\<close>: every branch but one throws
  \<open>error\<close> again.\<close>

definition validatePath_catch :: "'fs deps \<Rightarrow> 'fs \<Rightarrow> string \<Rightarrow> js_error \<Rightarrow> js_error + string" where
  "validatePath_catch d fs absolute error =
     (case error of
        JsError msg \<Rightarrow>
          if str_includes msg ''ENOENT'' then
            (case fs_realpath d fs (path_dirname d absolute) of
               Inr parentReal \<Rightarrow> Inr absolute
             | Inl parentError \<Rightarrow> Inl error)
          else if str_includes msg ''Access denied'' then Inl error
          else Inl error
      | JsThrown v \<Rightarrow> Inl error)"

definition validatePath :: "'fs deps \<Rightarrow> 'fs \<Rightarrow> string \<Rightarrow> string list \<Rightarrow> js_error + string" where
  "validatePath d fs requestedPath allowedDirectories =
     (let absolute = absolutePath d requestedPath;
          normalizedRequested = normalizePath d absolute
      in if \<not> isAllowed allowedDirectories normalizedRequested
         then Inl (outsideError absolute allowedDirectories)
         else (case fs_realpath d fs absolute of
                 Inr realPath \<Rightarrow>
                   if \<not> isAllowed allowedDirectories (normalizePath d realPath)
                   then validatePath_catch d fs absolute symlinkError
                   else Inr realPath
               | Inl error \<Rightarrow> validatePath_catch d fs absolute error))"

text \<open>The error kinds of the specification, as the code tells them apart: by the message.\<close>

definition isAccessDenied :: "js_error \<Rightarrow> bool" where
  "isAccessDenied e = (case e of JsError msg \<Rightarrow> str_includes msg ''Access denied'' | JsThrown v \<Rightarrow> False)"

definition isNotFound :: "js_error \<Rightarrow> bool" where
  "isNotFound e = (case e of JsError msg \<Rightarrow> str_includes msg ''ENOENT'' | JsThrown v \<Rightarrow> False)"

section \<open>FileEditor\<close>

text \<open>\<^verbatim>\<open>text.replace(/\r\n/g, '\n')\<close>: one pass from the left over the matches, which
  do not overlap.\<close>

fun normalizeLineEndings :: "string \<Rightarrow> string" where
  "normalizeLineEndings [] = []"
| "normalizeLineEndings [c] = [c]"
| "normalizeLineEndings (c # d # t) =
     (if c = CR \<and> d = LF then LF # normalizeLineEndings t
      else c # normalizeLineEndings (d # t))"

definition createUnifiedDiff :: "'fs deps \<Rightarrow> string \<Rightarrow> string \<Rightarrow> string \<Rightarrow> string" where
  "createUnifiedDiff d originalContent newContent filepath =
     (let normalizedOriginal = normalizeLineEndings originalContent;
          normalizedNew = normalizeLineEndings newContent
      in createTwoFilesPatch d filepath filepath normalizedOriginal normalizedNew
           ''original'' ''modified'')"

record edit =
  oldText :: string
  newText :: string

text \<open>\<^verbatim>\<open>xs.slice(a, b)\<close> for \<open>a \<le> b\<close> and \<^verbatim>\<open>xs.splice(i, n, ...ys)\<close>\<close>

definition slice :: "'a list \<Rightarrow> nat \<Rightarrow> nat \<Rightarrow> 'a list" where
  "slice xs a b = take (b - a) (drop a xs)"

definition splice :: "'a list \<Rightarrow> nat \<Rightarrow> nat \<Rightarrow> 'a list \<Rightarrow> 'a list" where
  "splice xs i n ys = take i xs @ ys @ drop (i + n) xs"

text \<open>\<^verbatim>\<open>oldLines.every((oldLine, j) => oldLine.trim() === potentialMatch[j].trim())\<close>;
  the loop bound keeps \<open>j\<close> inside \<open>potentialMatch\<close>.\<close>

definition isMatch :: "string list \<Rightarrow> string list \<Rightarrow> bool" where
  "isMatch oldLines potentialMatch =
     list_all (\<lambda>j. trim (oldLines ! j) = trim (potentialMatch ! j)) [0..<length oldLines]"

text \<open>The callback of \<^verbatim>\<open>normalizedNew.split('\n').map((line, j) => ...)\<close>.
  \<^verbatim>\<open>oldLines[j]?.match(/^\s*/)?.[0] || ''\<close> is the empty string when \<open>oldLines\<close> has no
  line \<open>j\<close>.\<close>

definition rewriteLine :: "string \<Rightarrow> string list \<Rightarrow> nat \<Rightarrow> string \<Rightarrow> string" where
  "rewriteLine originalIndent oldLines j line =
     (if j = 0 then originalIndent @ trimStart line
      else
        (let oldIndent = (if j < length oldLines then leadingSpace (oldLines ! j) else []);
             newIndent = leadingSpace line
         in if oldIndent \<noteq> [] \<and> newIndent \<noteq> [] then
              (let relativeIndent = int (length newIndent) - int (length oldIndent)
               in originalIndent @ replicate (nat (max 0 relativeIndent)) SP @ trimStart line)
            else line))"

text \<open>The body of \<^verbatim>\<open>if (isMatch)\<close>: the new working content.\<close>

definition replaceWindow :: "string list \<Rightarrow> string list \<Rightarrow> string \<Rightarrow> nat \<Rightarrow> string" where
  "replaceWindow contentLines oldLines normalizedNew i =
     (let originalIndent = leadingSpace (contentLines ! i);
          newLines = map (\<lambda>(j, line). rewriteLine originalIndent oldLines j line)
                         (enumerate 0 (str_split LF normalizedNew))
      in str_join [LF] (splice contentLines i (length oldLines) newLines))"

text \<open>The loop \<^verbatim>\<open>for (let i = 0; i <= contentLines.length - oldLines.length; i++)\<close>, from
  \<open>i\<close> on; \<open>None\<close> when it ends with \<^verbatim>\<open>matchFound\<close> false.\<close>

function fuzzyLoop :: "nat \<Rightarrow> string list \<Rightarrow> string list \<Rightarrow> string \<Rightarrow> string option" where
  "fuzzyLoop i contentLines oldLines normalizedNew =
     (if i + length oldLines \<le> length contentLines then
        (let potentialMatch = slice contentLines i (i + length oldLines)
         in if isMatch oldLines potentialMatch
            then Some (replaceWindow contentLines oldLines normalizedNew i)
            else fuzzyLoop (i + 1) contentLines oldLines normalizedNew)
      else None)"
  by pat_completeness auto
termination
  by (relation "measure (\<lambda>(i, contentLines, oldLines, normalizedNew). Suc (length contentLines) - i)")
     auto

declare fuzzyLoop.simps [simp del]

definition notFoundError :: "edit \<Rightarrow> js_error" where
  "notFoundError e = JsError (''Could not find exact match for edit:'' @ [LF] @ oldText e)"

text \<open>The loop \<^verbatim>\<open>for (const edit of edits)\<close> on the working content.\<close>

fun applyEdits :: "string \<Rightarrow> edit list \<Rightarrow> js_error + string" where
  "applyEdits modifiedContent [] = Inr modifiedContent"
| "applyEdits modifiedContent (e # edits) =
     (let normalizedOld = normalizeLineEndings (oldText e);
          normalizedNew = normalizeLineEndings (newText e)
      in if str_includes modifiedContent normalizedOld
         then applyEdits (str_replace modifiedContent normalizedOld normalizedNew) edits
         else (case fuzzyLoop 0 (str_split LF modifiedContent) (str_split LF normalizedOld)
                      normalizedNew of
                 Some modifiedContent' \<Rightarrow> applyEdits modifiedContent' edits
               | None \<Rightarrow> Inl (notFoundError e)))"

lemma str_indexOf_bound:
  "str_indexOf s p = Some i \<Longrightarrow> i + length p \<le> length s"
proof (induction s arbitrary: i)
  case Nil
  then show ?case by (simp split: if_splits)
next
  case (Cons c s)
  show ?case
  proof (cases "startsWith (c # s) p")
    case True
    have "length (take (length p) (c # s)) \<le> length (c # s)" by simp
    with True Cons.prems show ?thesis by (simp add: startsWith_def)
  next
    case False
    with Cons.prems obtain k where "str_indexOf s p = Some k" "i = Suc k" by auto
    with Cons.IH show ?thesis by fastforce
  qed
qed

lemma str_includes_length: "str_includes s p \<Longrightarrow> length p \<le> length s"
  using str_indexOf_bound by (fastforce simp: str_includes_def)

text \<open>The loop \<^verbatim>\<open>while (diff.includes('`'.repeat(numBackticks))) numBackticks++\<close>.
  It ends: a run longer than \<open>diff\<close> is not in \<open>diff\<close>.\<close>

function numBackticksLoop :: "string \<Rightarrow> nat \<Rightarrow> nat" where
  "numBackticksLoop diff numBackticks =
     (if str_includes diff (replicate numBackticks BACKTICK)
      then numBackticksLoop diff (numBackticks + 1)
      else numBackticks)"
  by pat_completeness auto
termination
proof (relation "measure (\<lambda>(diff, numBackticks). Suc (length diff) - numBackticks)")
  show "wf (measure (\<lambda>(diff, numBackticks). Suc (length diff) - numBackticks))" by simp
next
  fix diff :: string and numBackticks :: nat
  assume "str_includes diff (replicate numBackticks BACKTICK)"
  then have "numBackticks \<le> length diff" using str_includes_length by fastforce
  then show "((diff, numBackticks + 1), (diff, numBackticks))
      \<in> measure (\<lambda>(diff, numBackticks). Suc (length diff) - numBackticks)" by simp
qed

declare numBackticksLoop.simps [simp del]

definition formatDiff :: "string \<Rightarrow> string" where
  "formatDiff diff =
     (let numBackticks = numBackticksLoop diff 3
      in replicate numBackticks BACKTICK @ ''diff'' @ [LF] @ diff
           @ replicate numBackticks BACKTICK @ [LF, LF])"

text \<open>\<^verbatim>\<open>applyFileEdits\<close> returns what the promise settles to and the file system after
  the call.\<close>

definition applyFileEdits ::
  "'fs deps \<Rightarrow> 'fs \<Rightarrow> string list \<Rightarrow> string \<Rightarrow> edit list \<Rightarrow> bool \<Rightarrow> (js_error + string) \<times> 'fs" where
  "applyFileEdits d fs allowedDirectories filePath edits dryRun =
     (case validatePath d fs filePath allowedDirectories of
        Inl e \<Rightarrow> (Inl e, fs)
      | Inr validPath \<Rightarrow>
          (case fs_readFile d fs validPath of
             Inl e \<Rightarrow> (Inl e, fs)
           | Inr raw \<Rightarrow>
               (let content = normalizeLineEndings raw
                in case applyEdits content edits of
                     Inl e \<Rightarrow> (Inl e, fs)
                   | Inr modifiedContent \<Rightarrow>
                       (let diff = createUnifiedDiff d content modifiedContent filePath;
                            formattedDiff = formatDiff diff
                        in if \<not> dryRun then
                             (case fs_writeFile d fs validPath modifiedContent of
                                (Some e, fs') \<Rightarrow> (Inl e, fs')
                              | (None, fs') \<Rightarrow> (Inr formattedDiff, fs'))
                           else (Inr formattedDiff, fs)))))"

section \<open>The mocks of the test suite\<close>

text \<open>
  The repository's tests build a server on mocked dependencies: \<^verbatim>\<open>normalize\<close> returns
  its argument, \<^verbatim>\<open>isAbsolute\<close> returns true, \<^verbatim>\<open>resolve\<close> returns the path asked for,
  \<^verbatim>\<open>dirname\<close> is \<^verbatim>\<open>p.split('/').slice(0, -1).join('/')\<close>, \<^verbatim>\<open>join\<close> is
  \<^verbatim>\<open>paths.join('/')\<close>, and a path that does not exist is rejected with
  \<^verbatim>\<open>new Error('ENOENT')\<close>. The file system here is a table of real paths and a table of
  file contents; a write puts a new entry in front of the contents. \<open>mockPatch\<close> stands
  in for \<^verbatim>\<open>createTwoFilesPatch\<close>: it lists the file names and both contents.
\<close>

record memfs =
  realpaths :: "(string \<times> string) list"
  contents :: "(string \<times> string) list"

definition enoent :: js_error where
  "enoent = JsError ''ENOENT''"

definition mockPatch :: "string \<Rightarrow> string \<Rightarrow> string \<Rightarrow> string \<Rightarrow> string \<Rightarrow> string \<Rightarrow> string" where
  "mockPatch oldFile newFile oldStr newStr oldHeader newHeader =
     ''--- '' @ oldFile @ [LF] @ ''+++ '' @ newFile @ [LF] @ ''-'' @ oldStr @ [LF] @ ''+'' @ newStr @ [LF]"

definition mockDeps :: "memfs deps" where
  "mockDeps = \<lparr>
     path_normalize = (\<lambda>p. p),
     path_isAbsolute = (\<lambda>p. True),
     path_resolve = (\<lambda>ps. last ps),
     path_dirname = (\<lambda>p. str_join ''/'' (butlast (str_split (CHR ''/'') p))),
     path_join = (\<lambda>ps. str_join ''/'' ps),
     os_homedir = ''/home/user'',
     process_cwd = ''/'',
     fs_realpath = (\<lambda>fs p. case map_of (realpaths fs) p of None \<Rightarrow> Inl enoent | Some r \<Rightarrow> Inr r),
     fs_readFile = (\<lambda>fs p. case map_of (contents fs) p of None \<Rightarrow> Inl enoent | Some c \<Rightarrow> Inr c),
     fs_writeFile = (\<lambda>fs p c. (None, fs\<lparr>contents := (p, c) # contents fs\<rparr>)),
     createTwoFilesPatch = mockPatch
   \<rparr>"

text \<open>A file of the mocked file system, with CRLF line endings on disk.\<close>

definition demoFs :: memfs where
  "demoFs = \<lparr>realpaths = [(''/a/f'', ''/a/f'')],
              contents = [(''/a/f'', ''hello'' @ [CR, LF] @ ''world'')]\<rparr>"

section \<open>The allow-list check as the specification words it\<close>

text \<open>
  Section 4.1, step 4: some root \<open>r\<close> satisfies \<^verbatim>\<open>normalizedRequested === r\<close>, or
  \<^verbatim>\<open>normalizedRequested\<close> starts with \<open>r\<close> followed by a path separator.
\<close>

definition spec_withinRoots :: "string list \<Rightarrow> string \<Rightarrow> bool" where
  "spec_withinRoots roots p = list_ex (\<lambda>r. p = r \<or> startsWith p (r @ ''/'')) roots"

section \<open>Relative indentation as the specification words it\<close>

text \<open>
  Section 4.2, step 2b: the replacement line's indentation is the captured indentation
  widened or narrowed by the difference in whitespace length between old and new, never
  negative. As a width: the captured width plus the new line's width minus the old
  line's, and zero where that is below zero.
\<close>

definition spec_relativeIndent :: "nat \<Rightarrow> nat \<Rightarrow> nat \<Rightarrow> nat" where
  "spec_relativeIndent captured oldWidth newWidth =
     nat (max 0 (int captured + (int newWidth - int oldWidth)))"

section \<open>Instruction texts with CRLF line endings\<close>

text \<open>
  An instruction text written with LF line endings holds no CR LF pair; the same text with
  CRLF line endings has CR LF for each LF.
\<close>

definition toCRLF :: "string \<Rightarrow> string" where
  "toCRLF s = concat (map (\<lambda>c. if c = LF then [CR, LF] else [c]) s)"

definition lfLineEndings :: "string \<Rightarrow> bool" where
  "lfLineEndings s = (\<not> str_includes s [CR, LF])"

definition edit_toCRLF :: "edit \<Rightarrow> edit" where
  "edit_toCRLF e = \<lparr>oldText = toCRLF (oldText e), newText = toCRLF (newText e)\<rparr>"

section \<open>Path validation\<close>

lemma symlinkError_kind: "isAccessDenied symlinkError \<and> \<not> isNotFound symlinkError"
  by code_simp

lemma validatePath_catch_symlinkError:
  "validatePath_catch d fs absolute symlinkError = Inl symlinkError"
proof -
  have "\<not> str_includes ''Access denied - symlink target outside allowed directories'' ''ENOENT''"
    by code_simp
  then show ?thesis by (simp add: validatePath_catch_def symlinkError_def)
qed

text \<open>
  What the second check does: a real path of which no allowed directory is a string prefix
  is refused, and the error thrown inside \<^verbatim>\<open>try\<close> leaves the \<^verbatim>\<open>catch\<close> block as it came.
\<close>

lemma validatePath_symlink_denied:
  assumes "isAllowed allowedDirectories (normalizePath d (absolutePath d requestedPath))"
    and "fs_realpath d fs (absolutePath d requestedPath) = Inr realPath"
    and "\<not> isAllowed allowedDirectories (normalizePath d realPath)"
  shows "validatePath d fs requestedPath allowedDirectories = Inl symlinkError"
  using assms by (simp add: validatePath_def Let_def validatePath_catch_symlinkError)

lemma validatePath_nominal_denied:
  assumes "\<not> isAllowed allowedDirectories (normalizePath d (absolutePath d requestedPath))"
  shows "validatePath d fs requestedPath allowedDirectories
         = Inl (outsideError (absolutePath d requestedPath) allowedDirectories)"
  using assms by (simp add: validatePath_def Let_def)

lemma validatePath_realpath_failed:
  assumes "isAllowed allowedDirectories (normalizePath d (absolutePath d requestedPath))"
    and "fs_realpath d fs (absolutePath d requestedPath) = Inl error"
  shows "validatePath d fs requestedPath allowedDirectories
         = validatePath_catch d fs (absolutePath d requestedPath) error"
  using assms by (simp add: validatePath_def Let_def)

lemma validatePath_catch_not_found:
  assumes "isNotFound error"
  shows "validatePath_catch d fs absolute error
         = (case fs_realpath d fs (path_dirname d absolute) of
              Inr parentReal \<Rightarrow> Inr absolute
            | Inl parentError \<Rightarrow> Inl error)"
proof -
  from assms obtain msg where "error = JsError msg" "str_includes msg ''ENOENT''"
    by (cases error) (auto simp: isNotFound_def)
  then show ?thesis by (simp add: validatePath_catch_def split: sum.splits)
qed

text \<open>
  What a successful call guarantees: an allowed directory is a string prefix of the
  normalized requested path, and the result is either the real path, of whose normal form
  an allowed directory is a string prefix too, or the absolute path of a file that does
  not exist yet.
\<close>

lemma validatePath_success:
  assumes "validatePath d fs requestedPath allowedDirectories = Inr validPath"
  shows "isAllowed allowedDirectories (normalizePath d (absolutePath d requestedPath))
       \<and> (fs_realpath d fs (absolutePath d requestedPath) = Inr validPath
            \<and> isAllowed allowedDirectories (normalizePath d validPath)
          \<or> (\<exists>error. fs_realpath d fs (absolutePath d requestedPath) = Inl error
                \<and> isNotFound error)
            \<and> validPath = absolutePath d requestedPath)"
proof -
  let ?absolute = "absolutePath d requestedPath"
  from assms have allowed: "isAllowed allowedDirectories (normalizePath d ?absolute)"
    by (auto simp: validatePath_def Let_def split: if_splits)
  show ?thesis
  proof (cases "fs_realpath d fs ?absolute")
    case (Inr realPath)
    with assms allowed have "isAllowed allowedDirectories (normalizePath d realPath)"
      and "validPath = realPath"
      by (auto simp: validatePath_def Let_def validatePath_catch_symlinkError split: if_splits)
    with Inr allowed show ?thesis by simp
  next
    case (Inl error)
    with assms allowed have caught: "validatePath_catch d fs ?absolute error = Inr validPath"
      by (simp add: validatePath_realpath_failed)
    then have "isNotFound error \<and> validPath = ?absolute"
      by (cases error)
         (auto simp: validatePath_catch_def isNotFound_def split: if_splits sum.splits)
    with Inl allowed show ?thesis by simp
  qed
qed

text \<open>The check of the code is the weaker one: what the specification's check accepts,
  \<^const>\<open>isAllowed\<close> accepts.\<close>

lemma spec_withinRoots_isAllowed:
  "spec_withinRoots roots p \<Longrightarrow> isAllowed roots p"
proof -
  have "startsWith p (r @ ''/'') \<Longrightarrow> startsWith p r" for r
    by (metis append_eq_conv_conj append.assoc startsWith_def)
  moreover have "startsWith r r" for r by (simp add: startsWith_def)
  ultimately show "spec_withinRoots roots p \<Longrightarrow> isAllowed roots p"
    by (auto simp: spec_withinRoots_def isAllowed_def list_ex_iff)
qed

text \<open>
  C1. The allow-list check is to accept a path only when it is an allowed root or lies
  under one, behind a path separator. The code compares with \<^verbatim>\<open>startsWith\<close> alone: with
  \<^verbatim>\<open>/allowed-dir\<close> the only root, \<^verbatim>\<open>/allowed-dirEVIL/x\<close> (an existing file) is not within the
  roots as the specification words the check, and \<^verbatim>\<open>validatePath\<close> returns it.
\<close>

theorem C1_sibling_prefix_accepted:
  "validatePath mockDeps
     \<lparr>realpaths = [(''/allowed-dirEVIL/x'', ''/allowed-dirEVIL/x'')], contents = []\<rparr>
     ''/allowed-dirEVIL/x'' [''/allowed-dir'']
   = Inr ''/allowed-dirEVIL/x''
   \<and> \<not> spec_withinRoots [''/allowed-dir'']
         (normalizePath mockDeps (absolutePath mockDeps ''/allowed-dirEVIL/x''))"
  by code_simp

text \<open>
  C2. A path whose real path lies outside every allowed root is to be refused with an
  access-denied error. The second check has the prefix comparison of the first: a link
  \<^verbatim>\<open>/allowed-dir/link\<close> to \<^verbatim>\<open>/allowed-dirEVIL/secret\<close> resolves outside the only root
  \<^verbatim>\<open>/allowed-dir\<close>, and \<^verbatim>\<open>validatePath\<close> returns the real path.
\<close>

theorem C2_symlink_to_sibling_prefix_accepted:
  "validatePath mockDeps
     \<lparr>realpaths = [(''/allowed-dir/link'', ''/allowed-dirEVIL/secret'')], contents = []\<rparr>
     ''/allowed-dir/link'' [''/allowed-dir'']
   = Inr ''/allowed-dirEVIL/secret''
   \<and> \<not> spec_withinRoots [''/allowed-dir''] (normalizePath mockDeps ''/allowed-dirEVIL/secret'')"
  by code_simp

text \<open>
  C3. A requested path that passes the first allow-list check and whose real path cannot
  be resolved because it does not exist (the error message holds \<^verbatim>\<open>ENOENT\<close>): when the
  parent directory resolves, \<^verbatim>\<open>validatePath\<close> returns the absolute path it computed before
  resolution; when the parent does not resolve either, it throws the first error again.
\<close>

theorem C3_nonexistent_path:
  assumes "isAllowed allowedDirectories (normalizePath d (absolutePath d requestedPath))"
    and "fs_realpath d fs (absolutePath d requestedPath) = Inl error"
    and "isNotFound error"
  shows "(\<forall>parentReal.
            fs_realpath d fs (path_dirname d (absolutePath d requestedPath)) = Inr parentReal
            \<longrightarrow> validatePath d fs requestedPath allowedDirectories
                = Inr (absolutePath d requestedPath))
       \<and> (\<forall>parentError.
            fs_realpath d fs (path_dirname d (absolutePath d requestedPath)) = Inl parentError
            \<longrightarrow> validatePath d fs requestedPath allowedDirectories = Inl error)"
proof -
  have "validatePath d fs requestedPath allowedDirectories
        = validatePath_catch d fs (absolutePath d requestedPath) error"
    using assms(1,2) by (rule validatePath_realpath_failed)
  also have "\<dots> = (case fs_realpath d fs (path_dirname d (absolutePath d requestedPath)) of
                      Inr parentReal \<Rightarrow> Inr (absolutePath d requestedPath)
                    | Inl parentError \<Rightarrow> Inl error)"
    using assms(3) by (rule validatePath_catch_not_found)
  finally show ?thesis by simp
qed

theorem C3_nonexistent_path_witness:
  "validatePath mockDeps \<lparr>realpaths = [(''/allowed/dir'', ''/allowed/dir'')], contents = []\<rparr>
     ''/allowed/dir/new.txt'' [''/allowed/dir''] = Inr ''/allowed/dir/new.txt''
   \<and> validatePath mockDeps \<lparr>realpaths = [], contents = []\<rparr>
     ''/allowed/dir/new.txt'' [''/allowed/dir''] = Inl enoent"
proof -
  let ?p = "''/allowed/dir/new.txt''" and ?roots = "[''/allowed/dir'']"
  let ?fs1 = "\<lparr>realpaths = [(''/allowed/dir'', ''/allowed/dir'')], contents = []\<rparr>"
  let ?fs2 = "\<lparr>realpaths = [], contents = ([] :: (string \<times> string) list)\<rparr>"
  have abs: "absolutePath mockDeps ?p = ?p" by code_simp
  have allowed: "isAllowed ?roots (normalizePath mockDeps (absolutePath mockDeps ?p))"
    by code_simp
  have nf: "isNotFound enoent" by code_simp
  have r1: "fs_realpath mockDeps ?fs1 (absolutePath mockDeps ?p) = Inl enoent" by code_simp
  have r2: "fs_realpath mockDeps ?fs2 (absolutePath mockDeps ?p) = Inl enoent" by code_simp
  have p1: "fs_realpath mockDeps ?fs1 (path_dirname mockDeps (absolutePath mockDeps ?p))
            = Inr ''/allowed/dir''"
    by code_simp
  have p2: "fs_realpath mockDeps ?fs2 (path_dirname mockDeps (absolutePath mockDeps ?p))
            = Inl enoent"
    by code_simp
  from C3_nonexistent_path [OF allowed r1 nf] p1 C3_nonexistent_path [OF allowed r2 nf] p2 abs
  show ?thesis by simp
qed

text \<open>
  C10. For a requested path that passes the first check and does not exist, the result
  depends on the parent directory only through whether its real path resolves: two file
  systems that agree on that give the same result, and when the parent resolves in both,
  to whatever real paths, both return the absolute path computed before resolution. The
  real path of the parent is never compared with the allowed directories.
\<close>

theorem C10_parent_real_path_unchecked:
  assumes "isAllowed allowedDirectories (normalizePath d (absolutePath d requestedPath))"
    and "fs_realpath d fs1 (absolutePath d requestedPath) = Inl error"
    and "fs_realpath d fs2 (absolutePath d requestedPath) = Inl error"
    and "isNotFound error"
    and "isl (fs_realpath d fs1 (path_dirname d (absolutePath d requestedPath)))
         = isl (fs_realpath d fs2 (path_dirname d (absolutePath d requestedPath)))"
  shows "validatePath d fs1 requestedPath allowedDirectories
         = validatePath d fs2 requestedPath allowedDirectories
       \<and> (\<forall>real1 real2.
            fs_realpath d fs1 (path_dirname d (absolutePath d requestedPath)) = Inr real1
            \<and> fs_realpath d fs2 (path_dirname d (absolutePath d requestedPath)) = Inr real2
            \<longrightarrow> validatePath d fs1 requestedPath allowedDirectories
                  = Inr (absolutePath d requestedPath)
              \<and> validatePath d fs2 requestedPath allowedDirectories
                  = Inr (absolutePath d requestedPath))"
proof -
  let ?parent = "path_dirname d (absolutePath d requestedPath)"
  have one: "validatePath d fs1 requestedPath allowedDirectories
      = (case fs_realpath d fs1 ?parent of
           Inr parentReal \<Rightarrow> Inr (absolutePath d requestedPath)
         | Inl parentError \<Rightarrow> Inl error)"
    using validatePath_realpath_failed [OF assms(1) assms(2)]
      validatePath_catch_not_found [OF assms(4)] by simp
  have two: "validatePath d fs2 requestedPath allowedDirectories
      = (case fs_realpath d fs2 ?parent of
           Inr parentReal \<Rightarrow> Inr (absolutePath d requestedPath)
         | Inl parentError \<Rightarrow> Inl error)"
    using validatePath_realpath_failed [OF assms(1) assms(3)]
      validatePath_catch_not_found [OF assms(4)] by simp
  show ?thesis
  proof (cases "fs_realpath d fs1 ?parent")
    case (Inl e1)
    with assms(5) obtain e2 where "fs_realpath d fs2 ?parent = Inl e2"
      by (cases "fs_realpath d fs2 ?parent") auto
    with Inl one two show ?thesis by simp
  next
    case (Inr r1)
    with assms(5) obtain r2 where "fs_realpath d fs2 ?parent = Inr r2"
      by (cases "fs_realpath d fs2 ?parent") auto
    with Inr one two show ?thesis by simp
  qed
qed

theorem C10_parent_real_path_unchecked_witness:
  "validatePath mockDeps \<lparr>realpaths = [(''/allowed/link'', ''/allowed/real'')], contents = []\<rparr>
     ''/allowed/link/new.txt'' [''/allowed''] = Inr ''/allowed/link/new.txt''
   \<and> validatePath mockDeps \<lparr>realpaths = [(''/allowed/link'', ''/etc'')], contents = []\<rparr>
     ''/allowed/link/new.txt'' [''/allowed''] = Inr ''/allowed/link/new.txt''
   \<and> isAllowed [''/allowed''] (normalizePath mockDeps ''/allowed/real'')
   \<and> \<not> isAllowed [''/allowed''] (normalizePath mockDeps ''/etc'')"
proof -
  let ?p = "''/allowed/link/new.txt''" and ?roots = "[''/allowed'']"
  let ?fs1 = "\<lparr>realpaths = [(''/allowed/link'', ''/allowed/real'')], contents = []\<rparr>"
  let ?fs2 = "\<lparr>realpaths = [(''/allowed/link'', ''/etc'')], contents = []\<rparr>"
  have abs: "absolutePath mockDeps ?p = ?p" by code_simp
  have allowed: "isAllowed ?roots (normalizePath mockDeps (absolutePath mockDeps ?p))"
    by code_simp
  have nf: "isNotFound enoent" by code_simp
  have r1: "fs_realpath mockDeps ?fs1 (absolutePath mockDeps ?p) = Inl enoent" by code_simp
  have r2: "fs_realpath mockDeps ?fs2 (absolutePath mockDeps ?p) = Inl enoent" by code_simp
  have p1: "fs_realpath mockDeps ?fs1 (path_dirname mockDeps (absolutePath mockDeps ?p))
            = Inr ''/allowed/real''"
    by code_simp
  have p2: "fs_realpath mockDeps ?fs2 (path_dirname mockDeps (absolutePath mockDeps ?p))
            = Inr ''/etc''"
    by code_simp
  have same: "isl (fs_realpath mockDeps ?fs1 (path_dirname mockDeps (absolutePath mockDeps ?p)))
            = isl (fs_realpath mockDeps ?fs2 (path_dirname mockDeps (absolutePath mockDeps ?p)))"
    by (simp add: p1 p2)
  have inside: "isAllowed ?roots (normalizePath mockDeps ''/allowed/real'')" by code_simp
  have outside: "\<not> isAllowed ?roots (normalizePath mockDeps ''/etc'')" by code_simp
  from C10_parent_real_path_unchecked [OF allowed r1 r2 nf same] p1 p2 abs inside outside
  show ?thesis by simp
qed

section \<open>The line-by-line search\<close>

lemma str_split_not_Nil: "str_split sep s \<noteq> []"
  by (induction s) (auto split: list.splits)

lemma isMatch_iff:
  assumes "i + length oldLines \<le> length contentLines"
  shows "isMatch oldLines (slice contentLines i (i + length oldLines))
         \<longleftrightarrow> (\<forall>j<length oldLines. trim (oldLines ! j) = trim (contentLines ! (i + j)))"
  using assms by (auto simp: isMatch_def slice_def list_all_iff)

lemma fuzzyLoop_None_iff:
  "fuzzyLoop i contentLines oldLines normalizedNew = None
   \<longleftrightarrow> (\<forall>k. i \<le> k \<and> k + length oldLines \<le> length contentLines
            \<longrightarrow> \<not> isMatch oldLines (slice contentLines k (k + length oldLines)))"
proof (induction i contentLines oldLines normalizedNew rule: fuzzyLoop.induct)
  case (1 i contentLines oldLines normalizedNew)
  let ?hit = "\<lambda>k. isMatch oldLines (slice contentLines k (k + length oldLines))"
  show ?case
  proof (cases "i + length oldLines \<le> length contentLines")
    case False
    then have "fuzzyLoop i contentLines oldLines normalizedNew = None"
      by (subst fuzzyLoop.simps) simp
    moreover from False have "\<not> k + length oldLines \<le> length contentLines" if "i \<le> k" for k
      using that by linarith
    ultimately show ?thesis by blast
  next
    case inRange: True
    show ?thesis
    proof (cases "?hit i")
      case True
      with inRange have "fuzzyLoop i contentLines oldLines normalizedNew \<noteq> None"
        by (subst fuzzyLoop.simps) (simp add: Let_def)
      with True inRange show ?thesis by blast
    next
      case False
      with inRange have step: "fuzzyLoop i contentLines oldLines normalizedNew
          = fuzzyLoop (i + 1) contentLines oldLines normalizedNew"
        by (subst fuzzyLoop.simps) (simp add: Let_def)
      have "(\<forall>k. i + 1 \<le> k \<and> k + length oldLines \<le> length contentLines \<longrightarrow> \<not> ?hit k)
            \<longleftrightarrow> (\<forall>k. i \<le> k \<and> k + length oldLines \<le> length contentLines \<longrightarrow> \<not> ?hit k)"
      proof (intro iffI allI impI)
        fix k
        assume all: "\<forall>k. i + 1 \<le> k \<and> k + length oldLines \<le> length contentLines \<longrightarrow> \<not> ?hit k"
          and k: "i \<le> k \<and> k + length oldLines \<le> length contentLines"
        show "\<not> ?hit k"
        proof (cases "k = i")
          case True
          with False show ?thesis by simp
        next
          case False
          with k have "i + 1 \<le> k" by simp
          with all k show ?thesis by blast
        qed
      next
        fix k
        assume "\<forall>k. i \<le> k \<and> k + length oldLines \<le> length contentLines \<longrightarrow> \<not> ?hit k"
          and "i + 1 \<le> k \<and> k + length oldLines \<le> length contentLines"
        then show "\<not> ?hit k" by simp
      qed
      with "1.IH" [OF inRange refl False] step show ?thesis by simp
    qed
  qed
qed

lemma fuzzyLoop_Some:
  assumes "fuzzyLoop i contentLines oldLines normalizedNew = Some result"
  shows "\<exists>k. i \<le> k \<and> k + length oldLines \<le> length contentLines
           \<and> isMatch oldLines (slice contentLines k (k + length oldLines))
           \<and> (\<forall>k'. i \<le> k' \<and> k' < k
                 \<longrightarrow> \<not> isMatch oldLines (slice contentLines k' (k' + length oldLines)))
           \<and> result = replaceWindow contentLines oldLines normalizedNew k"
  using assms
proof (induction i contentLines oldLines normalizedNew rule: fuzzyLoop.induct)
  case (1 i contentLines oldLines normalizedNew)
  let ?hit = "\<lambda>k. isMatch oldLines (slice contentLines k (k + length oldLines))"
  from "1.prems" have inRange: "i + length oldLines \<le> length contentLines"
    by (subst (asm) fuzzyLoop.simps) (simp split: if_splits)
  show ?case
  proof (cases "?hit i")
    case True
    with inRange "1.prems" have "result = replaceWindow contentLines oldLines normalizedNew i"
      by (subst (asm) fuzzyLoop.simps) (simp add: Let_def)
    with True inRange show ?thesis by auto
  next
    case False
    with inRange "1.prems" have "fuzzyLoop (i + 1) contentLines oldLines normalizedNew = Some result"
      by (subst (asm) fuzzyLoop.simps) (simp add: Let_def)
    from "1.IH" [OF inRange refl False this] obtain k where k:
      "i + 1 \<le> k" "k + length oldLines \<le> length contentLines" "?hit k"
      "\<forall>k'. i + 1 \<le> k' \<and> k' < k \<longrightarrow> \<not> ?hit k'"
      "result = replaceWindow contentLines oldLines normalizedNew k"
      by blast
    have "\<not> ?hit k'" if "i \<le> k'" "k' < k" for k'
    proof (cases "k' = i")
      case True
      with False show ?thesis by simp
    next
      case False
      with that have "i + 1 \<le> k'" by simp
      with that k(4) show ?thesis by blast
    qed
    with k show ?thesis by (intro exI [of _ k]) auto
  qed
qed

section \<open>Applying edits to a file\<close>

lemma numBackticksLoop_spec:
  "k \<le> numBackticksLoop diff k
   \<and> \<not> str_includes diff (replicate (numBackticksLoop diff k) BACKTICK)
   \<and> (\<forall>m. k \<le> m \<and> m < numBackticksLoop diff k \<longrightarrow> str_includes diff (replicate m BACKTICK))"
proof (induction diff k rule: numBackticksLoop.induct)
  case (1 diff k)
  show ?case
  proof (cases "str_includes diff (replicate k BACKTICK)")
    case True
    then have eq: "numBackticksLoop diff k = numBackticksLoop diff (k + 1)"
      by (subst numBackticksLoop.simps) simp
    from "1.IH" [OF True] have ih:
      "k + 1 \<le> numBackticksLoop diff (k + 1)"
      "\<not> str_includes diff (replicate (numBackticksLoop diff (k + 1)) BACKTICK)"
      "\<And>m. k + 1 \<le> m \<Longrightarrow> m < numBackticksLoop diff (k + 1) \<Longrightarrow> str_includes diff (replicate m BACKTICK)"
      by auto
    have "str_includes diff (replicate m BACKTICK)" if "k \<le> m" "m < numBackticksLoop diff (k + 1)" for m
    proof (cases "m = k")
      case True
      with \<open>str_includes diff (replicate k BACKTICK)\<close> show ?thesis by simp
    next
      case False
      with that have "k + 1 \<le> m" by simp
      with that ih(3) show ?thesis by blast
    qed
    with ih(1,2) show ?thesis unfolding eq by auto
  next
    case False
    then have "numBackticksLoop diff k = k"
      by (subst numBackticksLoop.simps) simp
    with False show ?thesis by auto
  qed
qed

lemma applyEdits_append:
  "applyEdits c (pre @ rest)
   = (case applyEdits c pre of Inl e \<Rightarrow> Inl e | Inr working \<Rightarrow> applyEdits working rest)"
  by (induction pre arbitrary: c) (auto simp: Let_def split: option.splits)

lemma applyFileEdits_success:
  assumes "applyFileEdits d fs allowedDirectories filePath edits dryRun = (Inr result, fs')"
  shows "\<exists>validPath raw modifiedContent.
           validatePath d fs filePath allowedDirectories = Inr validPath
         \<and> fs_readFile d fs validPath = Inr raw
         \<and> applyEdits (normalizeLineEndings raw) edits = Inr modifiedContent
         \<and> result = formatDiff (createUnifiedDiff d (normalizeLineEndings raw) modifiedContent filePath)
         \<and> (if dryRun then fs' = fs
            else fs_writeFile d fs validPath modifiedContent = (None, fs'))"
  using assms
  by (auto simp: applyFileEdits_def Let_def split: sum.splits if_splits prod.splits option.splits)

text \<open>
  C9. The fence of the returned string has at least three backticks and is the shortest
  such run of backticks that the diff does not contain: the loop starts at three and adds
  one backtick as long as the diff contains the run. The string \<^verbatim>\<open>applyFileEdits\<close> returns
  is the unified diff between two such fences.
\<close>

theorem C9_fence:
  "(let n = numBackticksLoop diff 3 in
      3 \<le> n
      \<and> \<not> str_includes diff (replicate n BACKTICK)
      \<and> (\<forall>m. 3 \<le> m \<and> m < n \<longrightarrow> str_includes diff (replicate m BACKTICK))
      \<and> formatDiff diff
          = replicate n BACKTICK @ ''diff'' @ [LF] @ diff @ replicate n BACKTICK @ [LF, LF])
   \<and> (\<forall>result fs'.
         applyFileEdits d fs allowedDirectories filePath edits dryRun = (Inr result, fs')
         \<longrightarrow> (\<exists>content modifiedContent.
                result = formatDiff (createUnifiedDiff d content modifiedContent filePath)))"
proof -
  have "\<exists>content modifiedContent.
          result = formatDiff (createUnifiedDiff d content modifiedContent filePath)"
    if "applyFileEdits d fs allowedDirectories filePath edits dryRun = (Inr result, fs')"
    for result fs'
    using applyFileEdits_success [OF that] by blast
  then show ?thesis
    using numBackticksLoop_spec [of 3 diff] by (simp add: Let_def formatDiff_def)
qed

theorem C9_fence_witness:
  "numBackticksLoop ''a```b````c'' 3 = 5
   \<and> \<not> str_includes ''a```b````c'' (replicate 5 BACKTICK)
   \<and> str_includes ''a```b````c'' (replicate 4 BACKTICK)
   \<and> formatDiff ''a```b````c'' = ''`````diff'' @ [LF] @ ''a```b````c`````'' @ [LF, LF]
   \<and> (\<exists>content modifiedContent.
         fst (applyFileEdits mockDeps demoFs [''/a''] ''/a/f''
                [\<lparr>oldText = ''hello'', newText = ''bye''\<rparr>] False)
         = Inr (formatDiff (createUnifiedDiff mockDeps content modifiedContent ''/a/f'')))"
proof -
  let ?diff = "''a```b````c''"
  let ?run = "applyFileEdits mockDeps demoFs [''/a''] ''/a/f''
                [\<lparr>oldText = ''hello'', newText = ''bye''\<rparr>] False"
  note fence = C9_fence [of ?diff mockDeps demoFs "[''/a'']" "''/a/f''"
      "[\<lparr>oldText = ''hello'', newText = ''bye''\<rparr>]" False]
  have n: "numBackticksLoop ?diff 3 = 5" by code_simp
  from fence have five: "\<not> str_includes ?diff (replicate 5 BACKTICK)"
    unfolding Let_def n by blast
  from fence have "\<forall>m. 3 \<le> m \<and> m < 5 \<longrightarrow> str_includes ?diff (replicate m BACKTICK)"
    unfolding Let_def n by blast
  then have four: "str_includes ?diff (replicate 4 BACKTICK)" by simp
  from fence have "formatDiff ?diff
      = replicate 5 BACKTICK @ ''diff'' @ [LF] @ ?diff @ replicate 5 BACKTICK @ [LF, LF]"
    unfolding Let_def n by blast
  then have formatted: "formatDiff ?diff = ''`````diff'' @ [LF] @ ''a```b````c`````'' @ [LF, LF]"
    by (simp add: numeral_eq_Suc)
  have ok: "\<not> isl (fst ?run)" by code_simp
  obtain a fs' where run: "?run = (a, fs')" by (cases ?run)
  with ok obtain result where "a = Inr result" by (cases a) auto
  with run have "?run = (Inr result, fs')" by simp
  with fence have "\<exists>content modifiedContent.
      fst ?run = Inr (formatDiff (createUnifiedDiff mockDeps content modifiedContent ''/a/f''))"
    by fastforce
  with n five four formatted show ?thesis by blast
qed

text \<open>
  C4. When the edits before an instruction apply and that instruction's \<^verbatim>\<open>oldText\<close> is
  found in the working content neither as a substring nor by the line-by-line search (no
  window of the content's lines matches its lines),
  \<^verbatim>\<open>applyFileEdits\<close> throws an error whose message ends with that \<^verbatim>\<open>oldText\<close>, and the file
  system is the one before the call: nothing is written, whatever \<^verbatim>\<open>dryRun\<close> is and
  whatever edits follow.
\<close>

theorem C4_unmatched_edit_no_write:
  assumes "validatePath d fs filePath allowedDirectories = Inr validPath"
    and "fs_readFile d fs validPath = Inr raw"
    and "applyEdits (normalizeLineEndings raw) pre = Inr working"
    and "\<not> str_includes working (normalizeLineEndings (oldText e))"
    and "\<forall>i. i + length (str_split LF (normalizeLineEndings (oldText e)))
               \<le> length (str_split LF working)
             \<longrightarrow> \<not> isMatch (str_split LF (normalizeLineEndings (oldText e)))
                   (slice (str_split LF working) i
                      (i + length (str_split LF (normalizeLineEndings (oldText e)))))"
  shows "applyFileEdits d fs allowedDirectories filePath (pre @ e # post) dryRun
         = (Inl (JsError (''Could not find exact match for edit:'' @ [LF] @ oldText e)), fs)"
proof -
  have "fuzzyLoop 0 (str_split LF working) (str_split LF (normalizeLineEndings (oldText e)))
          (normalizeLineEndings (newText e)) = None"
    using assms(5) by (simp add: fuzzyLoop_None_iff)
  then have "applyEdits working (e # post) = Inl (notFoundError e)"
    using assms(4) by (simp add: Let_def)
  then have "applyEdits (normalizeLineEndings raw) (pre @ e # post) = Inl (notFoundError e)"
    using assms(3) by (simp add: applyEdits_append)
  then show ?thesis
    using assms(1,2) by (simp add: applyFileEdits_def Let_def notFoundError_def)
qed

theorem C4_unmatched_edit_no_write_witness:
  "applyFileEdits mockDeps demoFs [''/a''] ''/a/f''
     [\<lparr>oldText = ''hello'', newText = ''bye''\<rparr>,
      \<lparr>oldText = ''missing'', newText = ''x''\<rparr>,
      \<lparr>oldText = ''world'', newText = ''all''\<rparr>] False
   = (Inl (JsError (''Could not find exact match for edit:'' @ [LF] @ ''missing'')), demoFs)"
proof -
  let ?e1 = "\<lparr>oldText = ''hello'', newText = ''bye''\<rparr>"
  let ?e2 = "\<lparr>oldText = ''missing'', newText = ''x''\<rparr>"
  let ?e3 = "\<lparr>oldText = ''world'', newText = ''all''\<rparr>"
  let ?raw = "''hello'' @ [CR, LF] @ ''world''"
  let ?working = "''bye'' @ [LF] @ ''world''"
  have v: "validatePath mockDeps demoFs ''/a/f'' [''/a''] = Inr ''/a/f''" by code_simp
  have r: "fs_readFile mockDeps demoFs ''/a/f'' = Inr ?raw" by code_simp
  have pre: "applyEdits (normalizeLineEndings ?raw) [?e1] = Inr ?working" by code_simp
  have exact: "\<not> str_includes ?working (normalizeLineEndings (oldText ?e2))" by code_simp
  have "fuzzyLoop 0 (str_split LF ?working)
          (str_split LF (normalizeLineEndings (oldText ?e2)))
          (normalizeLineEndings (newText ?e2)) = None"
    by code_simp
  then have fuzzy: "\<forall>i. i + length (str_split LF (normalizeLineEndings (oldText ?e2)))
               \<le> length (str_split LF ?working)
             \<longrightarrow> \<not> isMatch (str_split LF (normalizeLineEndings (oldText ?e2)))
                   (slice (str_split LF ?working) i
                      (i + length (str_split LF (normalizeLineEndings (oldText ?e2)))))"
    unfolding fuzzyLoop_None_iff by blast
  from C4_unmatched_edit_no_write [OF v r pre exact fuzzy, of "[?e3]" False]
  show ?thesis by simp
qed

text \<open>
  C5. With \<^verbatim>\<open>dryRun\<close> true the file system after the call is the one before it, whatever the
  call returns; and when the path validates, the file reads and every edit applies, the
  call returns the fenced unified diff of the original and the edited content.
\<close>

theorem C5_dry_run_no_write:
  "snd (applyFileEdits d fs allowedDirectories filePath edits True) = fs
   \<and> (\<forall>validPath raw modifiedContent.
         validatePath d fs filePath allowedDirectories = Inr validPath
         \<and> fs_readFile d fs validPath = Inr raw
         \<and> applyEdits (normalizeLineEndings raw) edits = Inr modifiedContent
         \<longrightarrow> fst (applyFileEdits d fs allowedDirectories filePath edits True)
             = Inr (formatDiff (createUnifiedDiff d (normalizeLineEndings raw) modifiedContent filePath)))"
  by (auto simp: applyFileEdits_def Let_def split: sum.splits)

theorem C5_dry_run_no_write_witness:
  "snd (applyFileEdits mockDeps demoFs [''/a''] ''/a/f''
          [\<lparr>oldText = ''hello'', newText = ''bye''\<rparr>] True) = demoFs
   \<and> fst (applyFileEdits mockDeps demoFs [''/a''] ''/a/f''
          [\<lparr>oldText = ''hello'', newText = ''bye''\<rparr>] True)
     = Inr (formatDiff (createUnifiedDiff mockDeps (''hello'' @ [LF] @ ''world'')
              (''bye'' @ [LF] @ ''world'') ''/a/f''))
   \<and> snd (applyFileEdits mockDeps demoFs [''/a''] ''/a/f''
          [\<lparr>oldText = ''hello'', newText = ''bye''\<rparr>] False) \<noteq> demoFs"
proof -
  let ?e1 = "\<lparr>oldText = ''hello'', newText = ''bye''\<rparr>"
  let ?raw = "''hello'' @ [CR, LF] @ ''world''"
  have v: "validatePath mockDeps demoFs ''/a/f'' [''/a''] = Inr ''/a/f''" by code_simp
  have r: "fs_readFile mockDeps demoFs ''/a/f'' = Inr ?raw" by code_simp
  have n: "normalizeLineEndings ?raw = ''hello'' @ [LF] @ ''world''" by code_simp
  have a: "applyEdits (normalizeLineEndings ?raw) [?e1] = Inr (''bye'' @ [LF] @ ''world'')"
    by code_simp
  have w: "snd (applyFileEdits mockDeps demoFs [''/a''] ''/a/f'' [?e1] False) \<noteq> demoFs"
    by code_simp
  note dry = C5_dry_run_no_write [of mockDeps demoFs "[''/a'']" "''/a/f''" "[?e1]"]
  from dry have s: "snd (applyFileEdits mockDeps demoFs [''/a''] ''/a/f'' [?e1] True) = demoFs"
    by blast
  from dry v r a
  have "fst (applyFileEdits mockDeps demoFs [''/a''] ''/a/f'' [?e1] True)
        = Inr (formatDiff (createUnifiedDiff mockDeps (normalizeLineEndings ?raw)
                 (''bye'' @ [LF] @ ''world'') ''/a/f''))"
    by blast
  then have f: "fst (applyFileEdits mockDeps demoFs [''/a''] ''/a/f'' [?e1] True)
        = Inr (formatDiff (createUnifiedDiff mockDeps (''hello'' @ [LF] @ ''world'')
                 (''bye'' @ [LF] @ ''world'') ''/a/f''))"
    by (simp only: n)
  from s f w show ?thesis by blast
qed

section \<open>The indentation of the replacement lines\<close>

lemma leadingSpace_indent_trimStart:
  assumes "\<forall>c \<in> set ws. isSpace c"
  shows "leadingSpace (ws @ trimStart line) = ws" and "trimStart (ws @ trimStart line) = trimStart line"
proof -
  have "takeWhile isSpace (dropWhile isSpace line) = []"
    by (induction line) auto
  with assms show "leadingSpace (ws @ trimStart line) = ws"
    by (simp add: leadingSpace_def trimStart_def takeWhile_append2)
  from assms show "trimStart (ws @ trimStart line) = trimStart line"
    by (simp add: trimStart_def dropWhile_append2)
qed

lemma isSpace_SP: "isSpace SP"
  by (simp add: isSpace_def)

lemma leadingSpace_isSpace: "c \<in> set (leadingSpace s) \<Longrightarrow> isSpace c"
  by (auto simp: leadingSpace_def dest: set_takeWhileD)

lemma newLines_nth:
  assumes "j < length (str_split LF normalizedNew)"
  shows "map (\<lambda>(j, line). rewriteLine originalIndent oldLines j line)
             (enumerate 0 (str_split LF normalizedNew)) ! j
         = rewriteLine originalIndent oldLines j (str_split LF normalizedNew ! j)"
  using assms by (simp add: nth_enumerate_eq)

text \<open>
  C7, as amended. When the line-by-line search replaces a window, it is the first window
  that matches, and the lines of the new text go in rewritten. The first line becomes the
  leading whitespace of the window's first content line followed by the new line without
  its own leading whitespace. A later line whose old line (the line of \<^verbatim>\<open>oldText\<close> with
  the same index) and itself both start with whitespace becomes that captured
  indentation, then \<^verbatim>\<open>Math.max(0, newIndent.length - oldIndent.length)\<close> spaces, then the new
  line without its leading whitespace. The whitespace the rewritten line starts with is
  exactly the captured indentation and those spaces: it is widened when the new line is
  indented more than its old line and is never narrower than the captured indentation.
  A later line with no old line of its index, or where the old or the new line starts
  with no whitespace, goes in as it is.
\<close>

theorem C7_fuzzy_rewrite:
  assumes "fuzzyLoop 0 contentLines oldLines normalizedNew = Some result"
  shows "\<exists>i rewritten.
      i + length oldLines \<le> length contentLines
    \<and> isMatch oldLines (slice contentLines i (i + length oldLines))
    \<and> (\<forall>k<i. \<not> isMatch oldLines (slice contentLines k (k + length oldLines)))
    \<and> result = str_join [LF]
        (take i contentLines @ rewritten @ drop (i + length oldLines) contentLines)
    \<and> length rewritten = length (str_split LF normalizedNew)
    \<and> rewritten ! 0 = leadingSpace (contentLines ! i) @ trimStart (str_split LF normalizedNew ! 0)
    \<and> (\<forall>j. 0 < j \<and> j < length rewritten \<and> j < length oldLines
            \<and> leadingSpace (oldLines ! j) \<noteq> [] \<and> leadingSpace (str_split LF normalizedNew ! j) \<noteq> []
          \<longrightarrow> rewritten ! j
              = leadingSpace (contentLines ! i)
                @ replicate (length (leadingSpace (str_split LF normalizedNew ! j))
                             - length (leadingSpace (oldLines ! j))) SP
                @ trimStart (str_split LF normalizedNew ! j)
            \<and> leadingSpace (rewritten ! j)
              = leadingSpace (contentLines ! i)
                @ replicate (length (leadingSpace (str_split LF normalizedNew ! j))
                             - length (leadingSpace (oldLines ! j))) SP
            \<and> length (leadingSpace (contentLines ! i)) \<le> length (leadingSpace (rewritten ! j)))
    \<and> (\<forall>j. 0 < j \<and> j < length rewritten
            \<and> (length oldLines \<le> j \<or> leadingSpace (oldLines ! j) = []
                \<or> leadingSpace (str_split LF normalizedNew ! j) = [])
          \<longrightarrow> rewritten ! j = str_split LF normalizedNew ! j)"
proof -
  let ?new = "str_split LF normalizedNew"
  from fuzzyLoop_Some [OF assms] obtain i where i:
    "i + length oldLines \<le> length contentLines"
    "isMatch oldLines (slice contentLines i (i + length oldLines))"
    "\<forall>k'. 0 \<le> k' \<and> k' < i \<longrightarrow> \<not> isMatch oldLines (slice contentLines k' (k' + length oldLines))"
    "result = replaceWindow contentLines oldLines normalizedNew i"
    by blast
  let ?indent = "leadingSpace (contentLines ! i)"
  let ?rewritten = "map (\<lambda>(j, line). rewriteLine ?indent oldLines j line) (enumerate 0 ?new)"
  have len: "length ?rewritten = length ?new" by simp
  have nth: "?rewritten ! j = rewriteLine ?indent oldLines j (?new ! j)" if "j < length ?new" for j
    using that by (rule newLines_nth)
  have pos: "0 < length ?new" using str_split_not_Nil [of LF normalizedNew] by simp
  have res: "result = str_join [LF]
      (take i contentLines @ ?rewritten @ drop (i + length oldLines) contentLines)"
    using i(4) by (simp add: replaceWindow_def splice_def Let_def)
  have first: "?rewritten ! 0 = ?indent @ trimStart (?new ! 0)"
    using nth [OF pos] by (simp add: rewriteLine_def)
  have both: "?rewritten ! j
        = ?indent @ replicate (length (leadingSpace (?new ! j)) - length (leadingSpace (oldLines ! j))) SP
          @ trimStart (?new ! j)
      \<and> leadingSpace (?rewritten ! j)
        = ?indent @ replicate (length (leadingSpace (?new ! j)) - length (leadingSpace (oldLines ! j))) SP
      \<and> length ?indent \<le> length (leadingSpace (?rewritten ! j))"
    if "0 < j" "j < length ?rewritten" "j < length oldLines"
      "leadingSpace (oldLines ! j) \<noteq> []" "leadingSpace (?new ! j) \<noteq> []" for j
  proof -
    let ?k = "length (leadingSpace (?new ! j)) - length (leadingSpace (oldLines ! j))"
    have "nat (max 0 (int (length (leadingSpace (?new ! j))) - int (length (leadingSpace (oldLines ! j))))) = ?k"
      by simp
    with that nth [of j] have eq: "?rewritten ! j = ?indent @ replicate ?k SP @ trimStart (?new ! j)"
      by (simp add: rewriteLine_def Let_def)
    have "\<forall>c \<in> set (?indent @ replicate ?k SP). isSpace c"
      using leadingSpace_isSpace isSpace_SP by auto
    from leadingSpace_indent_trimStart(1) [OF this, of "?new ! j"] eq
    have "leadingSpace (?rewritten ! j) = ?indent @ replicate ?k SP" by simp
    moreover from this have "length ?indent \<le> length (leadingSpace (?rewritten ! j))" by simp
    ultimately show ?thesis using eq by blast
  qed
  have other: "?rewritten ! j = ?new ! j"
    if "0 < j" "j < length ?rewritten"
      "length oldLines \<le> j \<or> leadingSpace (oldLines ! j) = [] \<or> leadingSpace (?new ! j) = []" for j
    using that nth [of j] by (auto simp: rewriteLine_def Let_def)
  have before: "\<forall>k<i. \<not> isMatch oldLines (slice contentLines k (k + length oldLines))"
    using i(3) by simp
  show ?thesis
    apply (rule exI [of _ i])
    apply (rule exI [of _ ?rewritten])
    apply (intro conjI allI impI)
    subgoal by (rule i(1))
    subgoal by (rule i(2))
    subgoal using before by simp
    subgoal by (rule res)
    subgoal by (rule len)
    subgoal by (rule first)
    subgoal for j using both [of j] by blast
    subgoal for j using both [of j] by blast
    subgoal for j using both [of j] by blast
    subgoal for j using other [of j] by blast
    done
qed

theorem C7_fuzzy_rewrite_witness:
  "fuzzyLoop 0
     [''  if (x) {'', ''      a();'', ''      b();'', ''  }'']
     [''if (x) {'', ''    a();'', ''    b();'', ''}'']
     (''if (y) {'' @ [LF] @ ''      p();'' @ [LF] @ ''  q();'' @ [LF] @ ''}'')
   = Some (''  if (y) {'' @ [LF] @ ''    p();'' @ [LF] @ ''  q();'' @ [LF] @ ''}'')
   \<and> (\<exists>rewritten.
        ''  if (y) {'' @ [LF] @ ''    p();'' @ [LF] @ ''  q();'' @ [LF] @ ''}''
          = str_join [LF] rewritten
        \<and> length rewritten = 4
        \<and> leadingSpace (rewritten ! 1) = ''  '' @ replicate (6 - 4) SP
        \<and> leadingSpace (rewritten ! 2) = ''  '' @ replicate (2 - 4) SP
        \<and> rewritten ! 3 = ''}'')"
proof -
  let ?content = "[''  if (x) {'', ''      a();'', ''      b();'', ''  }'']"
  let ?old = "[''if (x) {'', ''    a();'', ''    b();'', ''}'']"
  let ?new = "''if (y) {'' @ [LF] @ ''      p();'' @ [LF] @ ''  q();'' @ [LF] @ ''}''"
  let ?result = "''  if (y) {'' @ [LF] @ ''    p();'' @ [LF] @ ''  q();'' @ [LF] @ ''}''"
  have run: "fuzzyLoop 0 ?content ?old ?new = Some ?result" by code_simp
  have lines: "str_split LF ?new = [''if (y) {'', ''      p();'', ''  q();'', ''}'']"
    by code_simp
  have l1: "length (leadingSpace ''      p();'') = 6" and l2: "length (leadingSpace ''  q();'') = 2"
    and o1: "length (leadingSpace ''    a();'') = 4" and o2: "length (leadingSpace ''    b();'') = 4"
    and o3: "leadingSpace ''}'' = []" and c0: "leadingSpace ''  if (x) {'' = ''  ''"
    by code_simp+
  from C7_fuzzy_rewrite [OF run] obtain i rewritten where r:
    "i + length ?old \<le> length ?content"
    "?result = str_join [LF] (take i ?content @ rewritten @ drop (i + length ?old) ?content)"
    "length rewritten = length (str_split LF ?new)"
    "\<forall>j. 0 < j \<and> j < length rewritten \<and> j < length ?old
         \<and> leadingSpace (?old ! j) \<noteq> [] \<and> leadingSpace (str_split LF ?new ! j) \<noteq> []
       \<longrightarrow> leadingSpace (rewritten ! j)
           = leadingSpace (?content ! i)
             @ replicate (length (leadingSpace (str_split LF ?new ! j))
                          - length (leadingSpace (?old ! j))) SP"
    "\<forall>j. 0 < j \<and> j < length rewritten
         \<and> (length ?old \<le> j \<or> leadingSpace (?old ! j) = []
             \<or> leadingSpace (str_split LF ?new ! j) = [])
       \<longrightarrow> rewritten ! j = str_split LF ?new ! j"
    by blast
  from r(1) have i: "i = 0" by simp
  from r(3) have len: "length rewritten = 4" unfolding lines by simp
  have one: "leadingSpace (rewritten ! 1) = ''  '' @ replicate (6 - 4) SP"
    using r(4) [rule_format, of 1] len l1 o1 c0 o2 unfolding lines i by force
  have two: "leadingSpace (rewritten ! 2) = ''  '' @ replicate (2 - 4) SP"
    using r(4) [rule_format, of 2] len l2 o2 c0 unfolding lines i by force
  have three: "rewritten ! 3 = ''}''"
    using r(5) [rule_format, of 3] len o3 unfolding lines i by force
  from r(2) have "?result = str_join [LF] rewritten" unfolding i by simp
  with run len one two three show ?thesis by blast
qed

text \<open>
  The claim as it was worded has the captured indentation narrowed where the new line is
  indented less than its old line. On the content lines \<^verbatim>\<open>if (x) {\<close>, \<^verbatim>\<open>a();\<close>, \<^verbatim>\<open>}\<close> indented
  by 8, 12 and 8 spaces, with the old text indented by 0, 4 and 0 and the new text
  \<^verbatim>\<open>if (y) {\<close>, \<^verbatim>\<open>b();\<close>, \<^verbatim>\<open>}\<close> indented by 0, 2 and 0, the second new line and its old line
  both start with whitespace and the difference is 2 - 4. Narrowing the captured 8 spaces
  by it gives 6; the code writes the line with 8, no narrower than the captured
  indentation.
\<close>

theorem C7_indentation_not_narrowed_counterexample:
  "applyEdits (''        if (x) {'' @ [LF] @ ''            a();'' @ [LF] @ ''        }'')
     [\<lparr>oldText = ''if (x) {'' @ [LF] @ ''    a();'' @ [LF] @ ''}'',
       newText = ''if (y) {'' @ [LF] @ ''  b();'' @ [LF] @ ''}''\<rparr>]
   = Inr (''        if (y) {'' @ [LF] @ ''        b();'' @ [LF] @ ''}'')
   \<and> length (leadingSpace ''        if (x) {'') = 8
   \<and> length (leadingSpace ''    a();'') = 4
   \<and> length (leadingSpace ''  b();'') = 2
   \<and> length (leadingSpace ''        b();'') = 8
   \<and> spec_relativeIndent 8 4 2 = 6
   \<and> length (leadingSpace ''        b();'') \<noteq> spec_relativeIndent 8 4 2
   \<and> \<not> length (leadingSpace ''        b();'') < length (leadingSpace ''        if (x) {'')"
  by code_simp

section \<open>Line endings of the instruction text\<close>

lemma str_includes_Cons:
  "str_includes (c # s) p \<longleftrightarrow> startsWith (c # s) p \<or> str_includes s p"
  by (simp add: str_includes_def)

lemma normalizeLineEndings_Cons:
  assumes "s = [] \<or> hd s \<noteq> LF"
  shows "normalizeLineEndings (c # s) = c # normalizeLineEndings s"
  using assms by (cases s) auto

lemma toCRLF_head: "toCRLF s = [] \<or> hd (toCRLF s) \<noteq> LF"
  by (cases s) (auto simp: toCRLF_def)

lemma normalizeLineEndings_toCRLF: "normalizeLineEndings (toCRLF s) = s"
proof (induction s)
  case Nil
  show ?case by (simp add: toCRLF_def)
next
  case (Cons c s)
  show ?case
  proof (cases "c = LF")
    case True
    then have "toCRLF (c # s) = CR # LF # toCRLF s" by (simp add: toCRLF_def)
    with Cons.IH True show ?thesis by simp
  next
    case False
    then have "toCRLF (c # s) = c # toCRLF s" by (simp add: toCRLF_def)
    with Cons.IH normalizeLineEndings_Cons [OF toCRLF_head, of c s] show ?thesis by simp
  qed
qed

lemma normalizeLineEndings_lf:
  "lfLineEndings s \<Longrightarrow> normalizeLineEndings s = s"
proof (induction s rule: normalizeLineEndings.induct)
  case 1
  show ?case by simp
next
  case (2 c)
  show ?case by simp
next
  case (3 c d t)
  from "3.prems" have no: "\<not> (c = CR \<and> d = LF)" and rest: "lfLineEndings (d # t)"
    by (auto simp: lfLineEndings_def str_includes_Cons startsWith_def)
  with "3.IH"(2) show ?case by auto
qed

lemma applyEdits_toCRLF:
  assumes "\<forall>e \<in> set edits. lfLineEndings (oldText e) \<and> lfLineEndings (newText e)"
  shows "rel_sum (\<lambda>e1 e2. True) (=) (applyEdits content (map edit_toCRLF edits)) (applyEdits content edits)"
  using assms
proof (induction edits arbitrary: content)
  case Nil
  show ?case by simp
next
  case (Cons e edits)
  then have o: "normalizeLineEndings (oldText (edit_toCRLF e)) = normalizeLineEndings (oldText e)"
    and n: "normalizeLineEndings (newText (edit_toCRLF e)) = normalizeLineEndings (newText e)"
    by (simp_all add: edit_toCRLF_def normalizeLineEndings_toCRLF normalizeLineEndings_lf)
  from Cons.prems have rest: "\<forall>e \<in> set edits. lfLineEndings (oldText e) \<and> lfLineEndings (newText e)"
    by simp
  show ?case
    using Cons.IH [OF rest] by (simp add: o n Let_def split: option.splits)
qed

text \<open>
  C8. For every file content and every list of edits whose texts have LF line endings,
  giving the edits with CRLF line endings instead changes nothing: the working content
  after the loop is the same (and the loop fails in both cases or in neither), and
  \<^verbatim>\<open>applyFileEdits\<close> returns the same string and leaves the same file system.
  \<^verbatim>\<open>normalizeLineEndings\<close> maps both forms of a text to the LF form before any comparison.
\<close>

theorem C8_line_ending_invariance:
  assumes "\<forall>e \<in> set edits. lfLineEndings (oldText e) \<and> lfLineEndings (newText e)"
  shows "(\<forall>final. applyEdits content (map edit_toCRLF edits) = Inr final
                 \<longleftrightarrow> applyEdits content edits = Inr final)
       \<and> (\<forall>result. fst (applyFileEdits d fs allowedDirectories filePath (map edit_toCRLF edits) dryRun) = Inr result
                 \<longleftrightarrow> fst (applyFileEdits d fs allowedDirectories filePath edits dryRun) = Inr result)
       \<and> snd (applyFileEdits d fs allowedDirectories filePath (map edit_toCRLF edits) dryRun)
         = snd (applyFileEdits d fs allowedDirectories filePath edits dryRun)"
proof -
  have rel: "rel_sum (\<lambda>e1 e2. True) (=) (applyEdits c (map edit_toCRLF edits)) (applyEdits c edits)" for c
    using assms by (rule applyEdits_toCRLF)
  have one: "applyEdits c (map edit_toCRLF edits) = Inr final \<longleftrightarrow> applyEdits c edits = Inr final" for c final
    using rel [of c] by (cases "applyEdits c (map edit_toCRLF edits)"; cases "applyEdits c edits") auto
  have two: "isl (applyEdits c (map edit_toCRLF edits)) \<longleftrightarrow> isl (applyEdits c edits)" for c
    using rel [of c] by (cases "applyEdits c (map edit_toCRLF edits)"; cases "applyEdits c edits") auto
  let ?crlf = "applyFileEdits d fs allowedDirectories filePath (map edit_toCRLF edits) dryRun"
  let ?lf = "applyFileEdits d fs allowedDirectories filePath edits dryRun"
  have onFile: "(\<forall>result. fst ?crlf = Inr result \<longleftrightarrow> fst ?lf = Inr result) \<and> snd ?crlf = snd ?lf"
  proof (cases "validatePath d fs filePath allowedDirectories")
    case (Inl e)
    then show ?thesis by (simp add: applyFileEdits_def)
  next
    case (Inr validPath)
    show ?thesis
    proof (cases "fs_readFile d fs validPath")
      case (Inl e)
      with Inr show ?thesis by (simp add: applyFileEdits_def)
    next
      case read: (Inr raw)
      show ?thesis
      proof (cases "applyEdits (normalizeLineEndings raw) edits")
        case (Inl e)
        with two [of "normalizeLineEndings raw"] obtain e' where
          "applyEdits (normalizeLineEndings raw) (map edit_toCRLF edits) = Inl e'"
          by (cases "applyEdits (normalizeLineEndings raw) (map edit_toCRLF edits)") auto
        with Inl Inr read show ?thesis by (simp add: applyFileEdits_def Let_def)
      next
        case ok: (Inr final)
        with one have "applyEdits (normalizeLineEndings raw) (map edit_toCRLF edits) = Inr final"
          by simp
        with ok Inr read show ?thesis by (simp add: applyFileEdits_def Let_def)
      qed
    qed
  qed
  with one show ?thesis by blast
qed

theorem C8_line_ending_invariance_witness:
  "map edit_toCRLF [\<lparr>oldText = ''hello'' @ [LF] @ ''world'', newText = ''bye'' @ [LF] @ ''all''\<rparr>]
   = [\<lparr>oldText = ''hello'' @ [CR, LF] @ ''world'', newText = ''bye'' @ [CR, LF] @ ''all''\<rparr>]
   \<and> applyEdits (''hello'' @ [LF] @ ''world'')
        [\<lparr>oldText = ''hello'' @ [LF] @ ''world'', newText = ''bye'' @ [LF] @ ''all''\<rparr>]
     = Inr (''bye'' @ [LF] @ ''all'')
   \<and> applyEdits (''hello'' @ [LF] @ ''world'')
        [\<lparr>oldText = ''hello'' @ [CR, LF] @ ''world'', newText = ''bye'' @ [CR, LF] @ ''all''\<rparr>]
     = Inr (''bye'' @ [LF] @ ''all'')"
proof -
  let ?lf = "[\<lparr>oldText = ''hello'' @ [LF] @ ''world'', newText = ''bye'' @ [LF] @ ''all''\<rparr>]"
  let ?crlf = "[\<lparr>oldText = ''hello'' @ [CR, LF] @ ''world'',
                newText = ''bye'' @ [CR, LF] @ ''all''\<rparr>]"
  let ?content = "''hello'' @ [LF] @ ''world''"
  have m: "map edit_toCRLF ?lf = ?crlf" by code_simp
  have h: "\<forall>e \<in> set ?lf. lfLineEndings (oldText e) \<and> lfLineEndings (newText e)" by code_simp
  have a: "applyEdits ?content ?lf = Inr (''bye'' @ [LF] @ ''all'')" by code_simp
  from C8_line_ending_invariance [OF h, of ?content mockDeps demoFs "[''/a'']" "''/a/f''" False] a
  have "applyEdits ?content (map edit_toCRLF ?lf) = Inr (''bye'' @ [LF] @ ''all'')" by blast
  then have "applyEdits ?content ?crlf = Inr (''bye'' @ [LF] @ ''all'')" by (simp only: m)
  with m a show ?thesis by blast
qed

section \<open>The exact-match replacement\<close>

text \<open>
  \<^verbatim>\<open>includes\<close> finds a substring, \<^verbatim>\<open>indexOf\<close> its first position, and an instruction whose
  old text is in the working content never reaches the line-by-line search. What
  \<^verbatim>\<open>replace\<close> puts there is the new text itself as long as the new text has no dollar sign.
\<close>

lemma str_indexOf_first:
  assumes "str_indexOf s p = Some i"
  shows "i + length p \<le> length s \<and> startsWith (drop i s) p \<and> (\<forall>j<i. \<not> startsWith (drop j s) p)"
  using assms
proof (induction s arbitrary: i)
  case Nil
  then show ?case by (simp add: startsWith_def split: if_splits)
next
  case (Cons c s)
  show ?case
  proof (cases "startsWith (c # s) p")
    case True
    with Cons.prems have "i = 0" by simp
    with True str_indexOf_bound [OF Cons.prems] show ?thesis by simp
  next
    case False
    with Cons.prems obtain k where k: "str_indexOf s p = Some k" "i = Suc k" by auto
    from Cons.IH [OF k(1)] have ih: "k + length p \<le> length s" "startsWith (drop k s) p"
      "\<forall>j<k. \<not> startsWith (drop j s) p" by auto
    have "\<not> startsWith (drop j (c # s)) p" if "j < i" for j
    proof (cases j)
      case 0
      with False show ?thesis by simp
    next
      case (Suc j')
      with that k(2) ih(3) show ?thesis by simp
    qed
    with ih k(2) show ?thesis by simp
  qed
qed

lemma str_includes_iff:
  "str_includes s p \<longleftrightarrow> (\<exists>j\<le>length s. startsWith (drop j s) p)"
proof (induction s)
  case Nil
  show ?case by (auto simp: str_includes_def startsWith_def)
next
  case (Cons c s)
  have "(\<exists>j\<le>length (c # s). startsWith (drop j (c # s)) p)
        \<longleftrightarrow> startsWith (c # s) p \<or> (\<exists>j\<le>length s. startsWith (drop j s) p)"
  proof
    assume "\<exists>j\<le>length (c # s). startsWith (drop j (c # s)) p"
    then obtain j where j: "j \<le> length (c # s)" "startsWith (drop j (c # s)) p" by blast
    show "startsWith (c # s) p \<or> (\<exists>j\<le>length s. startsWith (drop j s) p)"
    proof (cases j)
      case 0
      with j show ?thesis by simp
    next
      case (Suc j')
      with j show ?thesis by auto
    qed
  next
    assume "startsWith (c # s) p \<or> (\<exists>j\<le>length s. startsWith (drop j s) p)"
    then show "\<exists>j\<le>length (c # s). startsWith (drop j (c # s)) p"
    proof
      assume "startsWith (c # s) p"
      then show ?thesis by (intro exI [of _ 0]) simp
    next
      assume "\<exists>j\<le>length s. startsWith (drop j s) p"
      then obtain j where "j \<le> length s" "startsWith (drop j s) p" by blast
      then show ?thesis by (intro exI [of _ "Suc j"]) simp
    qed
  qed
  with Cons.IH show ?case by (simp add: str_includes_Cons)
qed

lemma getSubstitution_no_dollar:
  "DOLLAR \<notin> set template \<Longrightarrow> getSubstitution matched preceding following template = template"
  by (induction matched preceding following template rule: getSubstitution.induct) auto

lemma applyEdits_exact_literal:
  assumes "str_indexOf modifiedContent (normalizeLineEndings (oldText e)) = Some i"
    and "DOLLAR \<notin> set (normalizeLineEndings (newText e))"
  shows "applyEdits modifiedContent (e # edits)
         = applyEdits (take i modifiedContent @ normalizeLineEndings (newText e)
                       @ drop (i + length (normalizeLineEndings (oldText e))) modifiedContent) edits"
  using assms by (simp add: Let_def str_includes_def str_replace_def getSubstitution_no_dollar)

lemma applyEdits_fuzzy_fallback:
  assumes "\<not> str_includes modifiedContent (normalizeLineEndings (oldText e))"
  shows "applyEdits modifiedContent (e # edits)
         = (case fuzzyLoop 0 (str_split LF modifiedContent)
                  (str_split LF (normalizeLineEndings (oldText e))) (normalizeLineEndings (newText e)) of
              Some modifiedContent' \<Rightarrow> applyEdits modifiedContent' edits
            | None \<Rightarrow> Inl (notFoundError e))"
  using assms by (simp add: Let_def)

text \<open>
  C6. An instruction whose old text occurs in the working content is to have exactly the
  first occurrence replaced with its new text. \<^verbatim>\<open>modifiedContent.replace(normalizedOld,
  normalizedNew)\<close> reads the new text as a replacement template: on the content
  \<^verbatim>\<open>echo PID\<close>, replacing \<^verbatim>\<open>PID\<close> (found at index 5) with \<^verbatim>\<open>$$\<close> gives \<^verbatim>\<open>echo $\<close>, not
  \<^verbatim>\<open>echo $$\<close>; with \<^verbatim>\<open>[$&]\<close> it gives \<^verbatim>\<open>echo [PID]\<close>. The line-by-line search puts the new
  lines in as they are.
\<close>

theorem C6_exact_replace_reads_template:
  "applyEdits ''echo PID'' [\<lparr>oldText = ''PID'', newText = ''$$''\<rparr>] = Inr ''echo $''
   \<and> str_indexOf ''echo PID'' ''PID'' = Some 5
   \<and> take 5 ''echo PID'' @ ''$$'' @ drop (5 + length ''PID'') ''echo PID'' = ''echo $$''
   \<and> applyEdits ''echo PID'' [\<lparr>oldText = ''PID'', newText = ''[$&]''\<rparr>] = Inr ''echo [PID]''
   \<and> applyEdits ''  echo PID'' [\<lparr>oldText = ''echo PID '', newText = ''echo $$''\<rparr>]
     = Inr ''  echo $$''"
  by code_simp

end
